theory Spec2Isabelle
  imports Main
begin

section \<open>Strings of the source language\<close>

text \<open>
  The source is JavaScript. A string is modelled as a \<^typ>\<open>string\<close> whose characters are
  the code points U+0000 to U+00FF (Latin-1), read through \<^term>\<open>of_char\<close>. On this range
  \<^verbatim>\<open>String.prototype.toLowerCase\<close> acts character by character, and the Unicode classes
  used by the source (\<^verbatim>\<open>\p{L}\<close>, \<^verbatim>\<open>\p{N}\<close>, \<^verbatim>\<open>\s\<close> and the white space removed by
  \<^verbatim>\<open>trim\<close>) are the finite tables written out below.
\<close>

definition isLetter :: "char \<Rightarrow> bool" where
  \<comment> \<open>\<^verbatim>\<open>\p{L}\<close>: A-Z, a-z, U+00AA, U+00B5, U+00BA, U+00C0-U+00D6, U+00D8-U+00F6, U+00F8-U+00FF\<close>
  "isLetter c =
     (let n = (of_char c :: nat)
      in (65 \<le> n \<and> n \<le> 90) \<or> (97 \<le> n \<and> n \<le> 122) \<or> n = 170 \<or> n = 181 \<or> n = 186 \<or>
         (192 \<le> n \<and> n \<le> 214) \<or> (216 \<le> n \<and> n \<le> 246) \<or> (248 \<le> n \<and> n \<le> 255))"

definition isNumber :: "char \<Rightarrow> bool" where
  \<comment> \<open>\<^verbatim>\<open>\p{N}\<close>: 0-9, U+00B2, U+00B3, U+00B9, U+00BC-U+00BE\<close>
  "isNumber c =
     (let n = (of_char c :: nat)
      in (48 \<le> n \<and> n \<le> 57) \<or> n = 178 \<or> n = 179 \<or> n = 185 \<or> (188 \<le> n \<and> n \<le> 190))"

definition isWhiteSpace :: "char \<Rightarrow> bool" where
  \<comment> \<open>\<^verbatim>\<open>\s\<close>, and what \<^verbatim>\<open>trim\<close> strips: TAB, LF, VT, FF, CR, SPACE, NBSP\<close>
  "isWhiteSpace c =
     (let n = (of_char c :: nat)
      in (9 \<le> n \<and> n \<le> 13) \<or> n = 32 \<or> n = 160)"

definition notLetterOrNumber :: "char \<Rightarrow> bool" where
  \<comment> \<open>the character class \<^verbatim>\<open>[^\p{L}\p{N}]\<close>\<close>
  "notLetterOrNumber c = (\<not> isLetter c \<and> \<not> isNumber c)"

definition toLower :: "char \<Rightarrow> char" where
  \<comment> \<open>the upper-case letters A-Z, U+00C0-U+00D6 and U+00D8-U+00DE lie 32 below their lower case\<close>
  "toLower c =
     (let n = (of_char c :: nat)
      in if (65 \<le> n \<and> n \<le> 90) \<or> (192 \<le> n \<and> n \<le> 214) \<or> (216 \<le> n \<and> n \<le> 222)
         then char_of (n + 32) else c)"

definition toLowerCase :: "string \<Rightarrow> string" where
  "toLowerCase s = map toLower s"

definition trim :: "string \<Rightarrow> string" where
  "trim s = rev (dropWhile isWhiteSpace (rev (dropWhile isWhiteSpace s)))"

text \<open>
  \<^verbatim>\<open>s.split(/[class]+/)\<close>: the string is cut at every maximal run of characters of the
  class. \<open>seg\<close> is the segment read since the last cut. A run at the start or at the end of
  the string leaves an empty segment there, and the empty string gives one empty segment.
\<close>

function split_from :: "(char \<Rightarrow> bool) \<Rightarrow> string \<Rightarrow> string \<Rightarrow> string list" where
  "split_from sep seg [] = [seg]"
| "split_from sep seg (c # cs) =
     (if sep c then seg # split_from sep [] (dropWhile sep cs)
      else split_from sep (seg @ [c]) cs)"
  by pat_completeness auto
termination
proof (relation "measure (\<lambda>(sep, seg, s). length s)")
  fix sep :: "char \<Rightarrow> bool" and seg :: string and c :: char and cs :: string
  have "length (dropWhile sep cs) \<le> length cs"
    by (rule length_dropWhile_le)
  then show "((sep, [], dropWhile sep cs), (sep, seg, c # cs)) \<in> measure (\<lambda>(sep, seg, s). length s)"
    by simp
qed simp_all

definition split :: "(char \<Rightarrow> bool) \<Rightarrow> string \<Rightarrow> string list" where
  "split sep s = split_from sep [] s"

section \<open>Records, sets of positions and the index\<close>

text \<open>
  A \<^verbatim>\<open>Company\<close> is an object with string-valued properties; a property that is absent,
  \<^verbatim>\<open>undefined\<close> or \<^verbatim>\<open>null\<close> is \<^term>\<open>None\<close>. A JavaScript \<^verbatim>\<open>Set\<close> keeps its elements
  in insertion order, without repetition: it is the list of its elements in that order.
  The index is the \<^verbatim>\<open>Map\<close> from token to the \<^verbatim>\<open>Set\<close> of row positions.
\<close>

type_synonym company = "string \<rightharpoonup> string"
type_synonym docset = "nat list"
type_synonym index = "string \<rightharpoonup> docset"

definition Set_add :: "nat \<Rightarrow> docset \<Rightarrow> docset" where
  "Set_add i s = (if i \<in> set s then s else s @ [i])"

definition Set_new :: "nat list \<Rightarrow> docset" where
  \<comment> \<open>\<^verbatim>\<open>new Set(iterable)\<close> adds the elements one by one\<close>
  "Set_new xs = fold Set_add xs []"

definition Set_has :: "docset \<Rightarrow> nat \<Rightarrow> bool" where
  "Set_has s x = (x \<in> set s)"

definition fields :: "string list" where
  "fields = [''name'', ''city'', ''type'']"

definition field_text :: "company \<Rightarrow> string \<Rightarrow> string" where
  \<comment> \<open>\<^verbatim>\<open>(row?.[f] ?? "").toString()\<close>\<close>
  "field_text row f = (case row f of None \<Rightarrow> [] | Some v \<Rightarrow> v)"

definition tokenize :: "string \<Rightarrow> string list" where
  \<comment> \<open>\<^verbatim>\<open>v.toLowerCase().split(/[^\p{L}\p{N}]+/u).filter(Boolean)\<close>\<close>
  "tokenize v = filter (\<lambda>tok. tok \<noteq> []) (split notLetterOrNumber (toLowerCase v))"

definition index_token :: "nat \<Rightarrow> string \<Rightarrow> index \<Rightarrow> index" where
  \<comment> \<open>\<^verbatim>\<open>if (!idx.has(tok)) idx.set(tok, new Set()); idx.get(tok).add(i);\<close>\<close>
  "index_token i tok idx =
     (case idx tok of
        None \<Rightarrow> idx(tok \<mapsto> Set_add i [])
      | Some s \<Rightarrow> idx(tok \<mapsto> Set_add i s))"

definition index_field :: "nat \<Rightarrow> company \<Rightarrow> string \<Rightarrow> index \<Rightarrow> index" where
  "index_field i row f idx = fold (index_token i) (tokenize (field_text row f)) idx"

definition index_row :: "nat \<Rightarrow> company \<Rightarrow> index \<Rightarrow> index" where
  "index_row i row idx = fold (index_field i row) fields idx"

fun index_rows :: "nat \<Rightarrow> company list \<Rightarrow> index \<Rightarrow> index" where
  \<comment> \<open>\<^verbatim>\<open>rows.forEach((row, i) => ...)\<close>, from position \<open>i\<close> on\<close>
  "index_rows i [] idx = idx"
| "index_rows i (row # rows) idx = index_rows (Suc i) rows (index_row i row idx)"

definition buildIndex :: "company list \<Rightarrow> index" where
  "buildIndex rows = index_rows 0 rows Map.empty"

section \<open>Query resolution\<close>

datatype error = TypeError

text \<open>
  The \<^verbatim>\<open>for\<close> loop of \<^verbatim>\<open>queryIndex\<close> either leaves the function with \<^verbatim>\<open>return []\<close> or
  runs to its end with a value of \<^verbatim>\<open>current\<close>, which is \<^verbatim>\<open>null\<close> (\<^term>\<open>None\<close>) before
  the first token.
\<close>

datatype loop_exit = ReturnEmpty | LoopDone "docset option"

fun resolve :: "index \<Rightarrow> string list \<Rightarrow> docset option \<Rightarrow> loop_exit" where
  "resolve idx [] current = LoopDone current"
| "resolve idx (t # ts) current =
     (case idx t of
        None \<Rightarrow> ReturnEmpty
      | Some s \<Rightarrow>
          (let current' = (case current of
                             None \<Rightarrow> Set_new s
                           | Some cur \<Rightarrow> Set_new (filter (Set_has s) cur))
           in if current' = [] then ReturnEmpty else resolve idx ts (Some current')))"

definition row_at :: "company list \<Rightarrow> nat \<Rightarrow> company option" where
  \<comment> \<open>\<^verbatim>\<open>rows[i]\<close>, which is \<^verbatim>\<open>undefined\<close> (\<^term>\<open>None\<close>) out of range\<close>
  "row_at rows i = (if i < length rows then Some (rows ! i) else None)"

definition queryTokens :: "string \<Rightarrow> string list" where
  \<comment> \<open>the tokens \<^verbatim>\<open>toks\<close> the loop of \<^verbatim>\<open>queryIndex\<close> runs over; none when \<^verbatim>\<open>!q\<close>\<close>
  "queryTokens query =
     (let q = toLowerCase (trim query)
      in if q = [] then [] else split isWhiteSpace q)"

definition queryIndex :: "string \<Rightarrow> company list \<Rightarrow> index \<Rightarrow> error + company option list" where
  \<comment> \<open>spreading \<^verbatim>\<open>null\<close> in \<^verbatim>\<open>[...current]\<close> would throw a \<^verbatim>\<open>TypeError\<close>\<close>
  "queryIndex query rows idx =
     (let q = toLowerCase (trim query)
      in if q = [] then Inr (map Some rows)
         else (case resolve idx (split isWhiteSpace q) None of
                 ReturnEmpty \<Rightarrow> Inr []
               | LoopDone None \<Rightarrow> Inl TypeError
               | LoopDone (Some current) \<Rightarrow> Inr (map (row_at rows) (take 1000 current))))"

section \<open>Notions used to state the properties\<close>

definition rowTokens :: "company \<Rightarrow> string list" where
  \<comment> \<open>the tokens \<^verbatim>\<open>buildIndex\<close> visits for one row, field by field\<close>
  "rowTokens row = concat (map (\<lambda>f. tokenize (field_text row f)) fields)"

definition posting :: "company list \<Rightarrow> string \<Rightarrow> nat list" where
  \<comment> \<open>the positions, in ascending order, of the rows one of whose indexed fields has the token\<close>
  "posting rows t = filter (\<lambda>i. t \<in> set (rowTokens (rows ! i))) [0..<length rows]"

definition matches :: "index \<Rightarrow> string list \<Rightarrow> nat \<Rightarrow> bool" where
  \<comment> \<open>position \<open>i\<close> lies in the position set of every token of \<open>toks\<close>\<close>
  "matches idx toks i = list_all (\<lambda>t. case idx t of None \<Rightarrow> False | Some s \<Rightarrow> i \<in> set s) toks"

fun join :: "string \<Rightarrow> string list \<Rightarrow> string" where
  \<comment> \<open>\<^verbatim>\<open>Array.prototype.join\<close>\<close>
  "join sep [] = []"
| "join sep [w] = w"
| "join sep (w # v # ws) = w @ sep @ join sep (v # ws)"

text \<open>The three records of the end-to-end example, the third with a field that is not indexed.\<close>

definition watch :: company where
  "watch = [''name'' \<mapsto> ''Alpine Watch AG'', ''city'' \<mapsto> ''Zurich'']"

definition trading :: company where
  "trading = [''name'' \<mapsto> ''Geneva Trading SA'', ''city'' \<mapsto> ''Geneva'']"

definition textiles :: company where
  "textiles = [''name'' \<mapsto> ''Alpine Textiles'', ''city'' \<mapsto> ''Basel'', ''address'' \<mapsto> ''Secret Lane 1'']"

definition example_rows :: "company list" where
  "example_rows = [watch, trading, textiles]"

text \<open>A record whose name has a hyphen, and a collection of 1001 records for the result cap.\<close>

definition hyphenated :: company where
  "hyphenated = [''name'' \<mapsto> ''Rolls-Royce'']"

definition plain :: company where
  "plain = [''name'' \<mapsto> ''a'']"

definition special :: company where
  "special = [''name'' \<mapsto> ''a'', ''city'' \<mapsto> ''b'']"

definition cap_rows :: "company list" where
  "cap_rows = replicate 1000 plain @ [special]"

section \<open>Characters and splitting\<close>

lemma toLower_idem: "toLower (toLower c) = toLower c"
  by (auto simp: toLower_def Let_def)

lemma isWhiteSpace_toLower: "isWhiteSpace (toLower c) = isWhiteSpace c"
  by (auto simp: toLower_def isWhiteSpace_def Let_def)

lemma toLowerCase_trim: "toLowerCase (trim s) = trim (toLowerCase s)"
  by (simp add: toLowerCase_def trim_def rev_map dropWhile_map comp_def isWhiteSpace_toLower)

lemma split_from_dropWhile:
  "filter (\<lambda>w. w \<noteq> []) (split_from sep [] (dropWhile sep s)) = filter (\<lambda>w. w \<noteq> []) (split_from sep [] s)"
  by (cases s) auto

lemma split_from_all_sep:
  "\<forall>c\<in>set s. sep c \<Longrightarrow> filter (\<lambda>w. w \<noteq> []) (split_from sep [] s) = []"
proof -
  assume a: "\<forall>c\<in>set s. sep c"
  then have "dropWhile sep s = []" by simp
  with split_from_dropWhile [of sep s] show ?thesis by simp
qed

lemma split_from_append_sep:
  "sep c \<Longrightarrow>
   filter (\<lambda>w. w \<noteq> []) (split_from sep seg (a @ c # b)) =
   filter (\<lambda>w. w \<noteq> []) (split_from sep seg a) @ filter (\<lambda>w. w \<noteq> []) (split_from sep [] b)"
proof (induction a arbitrary: seg)
  case Nil
  then show ?case using split_from_dropWhile [of sep b] by simp
next
  case (Cons x a)
  show ?case
  proof (cases "sep x")
    case True
    have "filter (\<lambda>w. w \<noteq> []) (split_from sep [] (dropWhile sep (a @ c # b))) =
          filter (\<lambda>w. w \<noteq> []) (split_from sep [] a) @ filter (\<lambda>w. w \<noteq> []) (split_from sep [] b)"
      using split_from_dropWhile [of sep "a @ c # b"] Cons.IH [OF Cons.prems, of "[]"] by simp
    then show ?thesis using True split_from_dropWhile [of sep a] by simp
  next
    case False
    then show ?thesis using Cons.IH [OF Cons.prems] by simp
  qed
qed

lemma split_from_append_seps:
  "\<forall>c\<in>set w. sep c \<Longrightarrow>
   filter (\<lambda>w. w \<noteq> []) (split_from sep seg (a @ w)) = filter (\<lambda>w. w \<noteq> []) (split_from sep seg a)"
proof (cases w)
  case Nil
  then show ?thesis by simp
next
  case (Cons c b)
  assume a: "\<forall>c\<in>set w. sep c"
  with Cons have "sep c" and "\<forall>c\<in>set b. sep c" by simp_all
  then show ?thesis using Cons split_from_append_sep [of sep c seg a b] split_from_all_sep [of b sep] by simp
qed

lemma last_dropWhile: "dropWhile P xs \<noteq> [] \<Longrightarrow> last (dropWhile P xs) = last xs"
  by (induction xs) (auto split: if_splits)

lemma split_from_no_empty:
  "(seg \<noteq> [] \<or> (s \<noteq> [] \<and> \<not> sep (hd s))) \<Longrightarrow> (s \<noteq> [] \<longrightarrow> \<not> sep (last s)) \<Longrightarrow>
   [] \<notin> set (split_from sep seg s)"
proof (induction sep seg s rule: split_from.induct)
  case (1 sep seg)
  then show ?case by simp
next
  case (2 sep seg c cs)
  show ?case
  proof (cases "sep c")
    case True
    with 2 have seg: "seg \<noteq> []" and cs: "cs \<noteq> []" and l: "\<not> sep (last cs)" by (auto split: if_splits)
    then have "last cs \<in> set cs" by simp
    with l have d: "dropWhile sep cs \<noteq> []" by (auto simp: dropWhile_eq_Nil_conv)
    then have "\<not> sep (hd (dropWhile sep cs))" by (rule hd_dropWhile)
    moreover have "\<not> sep (last (dropWhile sep cs))" using d l by (simp add: last_dropWhile)
    ultimately have "[] \<notin> set (split_from sep [] (dropWhile sep cs))"
      using 2(1) [OF True] d by simp
    with seg True show ?thesis by simp
  next
    case False
    then show ?thesis using 2 by (auto split: if_splits)
  qed
qed

lemma trim_eq_Nil: "\<forall>c\<in>set s. isWhiteSpace c \<Longrightarrow> trim s = []"
proof -
  assume "\<forall>c\<in>set s. isWhiteSpace c"
  then have "dropWhile isWhiteSpace s = []" by simp
  then show ?thesis by (simp only: trim_def rev.simps dropWhile.simps)
qed

lemma trim_decomp: "\<exists>a b. s = a @ trim s @ b \<and> (\<forall>c\<in>set a. isWhiteSpace c) \<and> (\<forall>c\<in>set b. isWhiteSpace c)"
proof -
  let ?d = "dropWhile isWhiteSpace s"
  let ?r = "rev ?d"
  have 1: "s = takeWhile isWhiteSpace s @ ?d" by simp
  have "trim s @ rev (takeWhile isWhiteSpace ?r) =
        rev (takeWhile isWhiteSpace ?r @ dropWhile isWhiteSpace ?r)"
    by (simp only: trim_def rev_append)
  also have "\<dots> = rev ?r" by (simp only: takeWhile_dropWhile_id)
  also have "\<dots> = ?d" by (simp only: rev_rev_ident)
  finally have 2: "?d = trim s @ rev (takeWhile isWhiteSpace ?r)" by (rule sym)
  have 3: "\<forall>c\<in>set (takeWhile isWhiteSpace s). isWhiteSpace c" by (auto dest: set_takeWhileD)
  have 4: "\<forall>c\<in>set (rev (takeWhile isWhiteSpace ?r)). isWhiteSpace c" by (auto dest: set_takeWhileD)
  have "s = takeWhile isWhiteSpace s @ trim s @ rev (takeWhile isWhiteSpace ?r)"
    using 1 2 by metis
  with 3 4 show ?thesis by blast
qed

lemma trim_ends:
  assumes "trim s \<noteq> []"
  shows "\<not> isWhiteSpace (hd (trim s))" and "\<not> isWhiteSpace (last (trim s))"
proof -
  let ?d = "dropWhile isWhiteSpace s"
  let ?e = "dropWhile isWhiteSpace (rev ?d)"
  from assms have e: "?e \<noteq> []" by (simp add: trim_def)
  have d: "?d \<noteq> []"
  proof
    assume "?d = []"
    then have "?e = []" by (simp only: rev.simps dropWhile.simps)
    with e show False by contradiction
  qed
  have "last (trim s) = hd ?e" using e by (simp add: trim_def last_rev)
  then show "\<not> isWhiteSpace (last (trim s))" using hd_dropWhile [OF e] by simp
  have "hd (trim s) = last ?e" using e by (simp add: trim_def hd_rev)
  also have "\<dots> = last (rev ?d)" using e by (rule last_dropWhile)
  also have "\<dots> = hd ?d" using d by (simp add: last_rev)
  finally show "\<not> isWhiteSpace (hd (trim s))" using hd_dropWhile [OF d] by simp
qed

lemma split_from_prepend_seps:
  "\<forall>c\<in>set a. sep c \<Longrightarrow>
   filter (\<lambda>w. w \<noteq> []) (split_from sep [] (a @ s)) = filter (\<lambda>w. w \<noteq> []) (split_from sep [] s)"
proof (induction a)
  case Nil
  then show ?case by simp
next
  case (Cons c a)
  then show ?case using split_from_dropWhile [of sep "a @ s"] by simp
qed

lemma split_trim:
  "filter (\<lambda>w. w \<noteq> []) (split isWhiteSpace s) =
     (if trim s = [] then [] else split isWhiteSpace (trim s))"
proof -
  obtain a b where s: "s = a @ trim s @ b"
    and a: "\<forall>c\<in>set a. isWhiteSpace c" and b: "\<forall>c\<in>set b. isWhiteSpace c"
    using trim_decomp by blast
  have "filter (\<lambda>w. w \<noteq> []) (split_from isWhiteSpace [] (a @ trim s @ b)) =
        filter (\<lambda>w. w \<noteq> []) (split_from isWhiteSpace [] (trim s @ b))"
    using a by (rule split_from_prepend_seps)
  also have "\<dots> = filter (\<lambda>w. w \<noteq> []) (split_from isWhiteSpace [] (trim s))"
    using b by (rule split_from_append_seps)
  finally have eq: "filter (\<lambda>w. w \<noteq> []) (split isWhiteSpace s) =
        filter (\<lambda>w. w \<noteq> []) (split_from isWhiteSpace [] (trim s))"
    using s by (simp add: split_def)
  show ?thesis
  proof (cases "trim s = []")
    case True
    with eq show ?thesis by simp
  next
    case False
    then have "[] \<notin> set (split_from isWhiteSpace [] (trim s))"
      using trim_ends [OF False] by (intro split_from_no_empty) simp_all
    then have "filter (\<lambda>w. w \<noteq> []) (split_from isWhiteSpace [] (trim s)) = split_from isWhiteSpace [] (trim s)"
      by (auto simp: filter_id_conv)
    with eq False show ?thesis by (simp add: split_def)
  qed
qed

lemma queryTokens_words:
  "queryTokens query = filter (\<lambda>w. w \<noteq> []) (split isWhiteSpace (toLowerCase query))"
  by (simp add: queryTokens_def Let_def toLowerCase_trim split_trim)

lemma queryTokens_append:
  "isWhiteSpace c \<Longrightarrow> queryTokens (a @ c # b) = queryTokens a @ queryTokens b"
  using split_from_append_sep [of isWhiteSpace "toLower c" "[]" "toLowerCase a" "toLowerCase b"]
  by (simp add: queryTokens_words split_def toLowerCase_def isWhiteSpace_toLower)

section \<open>The built index and the loop of the query\<close>

lemma Set_add_idem: "Set_add i (Set_add i s) = Set_add i s"
  by (simp add: Set_add_def)

lemma index_token_apply:
  "index_token i tok idx t =
     (if t = tok then Some (Set_add i (case idx t of None \<Rightarrow> [] | Some s \<Rightarrow> s)) else idx t)"
  by (simp add: index_token_def split: option.splits)

lemma fold_index_token:
  "fold (index_token i) toks idx t =
     (if t \<in> set toks then Some (Set_add i (case idx t of None \<Rightarrow> [] | Some s \<Rightarrow> s)) else idx t)"
proof (induction toks arbitrary: idx)
  case Nil
  then show ?case by simp
next
  case (Cons x xs)
  have "fold (index_token i) (x # xs) idx t = fold (index_token i) xs (index_token i x idx) t"
    by simp
  also have "\<dots> = (if t \<in> set xs
       then Some (Set_add i (case index_token i x idx t of None \<Rightarrow> [] | Some s \<Rightarrow> s))
       else index_token i x idx t)"
    by (rule Cons.IH)
  also have "\<dots> = (if t \<in> set (x # xs)
       then Some (Set_add i (case idx t of None \<Rightarrow> [] | Some s \<Rightarrow> s)) else idx t)"
    by (simp add: index_token_apply Set_add_idem)
  finally show ?case .
qed

lemma index_row_fold: "index_row i row idx = fold (index_token i) (rowTokens row) idx"
  by (simp add: index_row_def index_field_def rowTokens_def fields_def)

lemma index_row_apply:
  "index_row i row idx t =
     (if t \<in> set (rowTokens row) then Some (Set_add i (case idx t of None \<Rightarrow> [] | Some s \<Rightarrow> s)) else idx t)"
  by (simp only: index_row_fold fold_index_token)

lemma index_rows_snoc:
  "index_rows i (rows @ [r]) idx = index_row (i + length rows) r (index_rows i rows idx)"
  by (induction rows arbitrary: i idx) simp_all

lemma buildIndex_snoc: "buildIndex (rows @ [r]) = index_row (length rows) r (buildIndex rows)"
  by (simp add: buildIndex_def index_rows_snoc)

lemma posting_snoc:
  "posting (rows @ [r]) t = posting rows t @ (if t \<in> set (rowTokens r) then [length rows] else [])"
proof -
  have "filter (\<lambda>i. t \<in> set (rowTokens ((rows @ [r]) ! i))) [0..<length rows] =
        filter (\<lambda>i. t \<in> set (rowTokens (rows ! i))) [0..<length rows]"
    by (rule filter_cong) (simp_all add: nth_append)
  then show ?thesis by (simp add: posting_def)
qed

lemma posting_less: "i \<in> set (posting rows t) \<Longrightarrow> i < length rows"
  by (simp add: posting_def)

lemma buildIndex_lookup:
  "buildIndex rows t = (if posting rows t = [] then None else Some (posting rows t))"
proof (induction rows rule: rev_induct)
  case Nil
  show ?case by (simp add: buildIndex_def posting_def)
next
  case (snoc r rows)
  have c: "(case buildIndex rows t of None \<Rightarrow> [] | Some s \<Rightarrow> s) = posting rows t"
    by (simp add: snoc.IH)
  have n: "length rows \<notin> set (posting rows t)"
    using posting_less [of "length rows" rows t] by auto
  show ?case
    by (simp add: buildIndex_snoc index_row_apply c n posting_snoc snoc.IH Set_add_def)
qed

lemma posting_sorted: "sorted_wrt (<) (posting rows t)"
  by (simp add: posting_def sorted_wrt_filter)

lemma posting_distinct: "distinct (posting rows t)"
  by (simp add: posting_def)

lemma fold_Set_add: "distinct xs \<Longrightarrow> set xs \<inter> set acc = {} \<Longrightarrow> fold Set_add xs acc = acc @ xs"
  by (induction xs arbitrary: acc) (auto simp: Set_add_def)

lemma Set_new_distinct: "distinct xs \<Longrightarrow> Set_new xs = xs"
  by (simp add: Set_new_def fold_Set_add)

lemma matches_Nil: "matches idx [] i"
  by (simp add: matches_def)

lemma matches_Cons:
  "matches idx (t # ts) i = ((case idx t of None \<Rightarrow> False | Some s \<Rightarrow> i \<in> set s) \<and> matches idx ts i)"
  by (simp add: matches_def)

lemma resolve_Some:
  "distinct cur \<Longrightarrow> cur \<noteq> [] \<Longrightarrow>
   resolve idx ts (Some cur) =
     (if filter (matches idx ts) cur = [] then ReturnEmpty
      else LoopDone (Some (filter (matches idx ts) cur)))"
proof (induction ts arbitrary: cur)
  case Nil
  then show ?case by (simp add: matches_Nil)
next
  case (Cons t ts)
  show ?case
  proof (cases "idx t")
    case None
    then show ?thesis by (simp add: matches_Cons)
  next
    case (Some s)
    let ?c = "filter (Set_has s) cur"
    have d: "distinct ?c" using Cons.prems by simp
    have f: "filter (matches idx (t # ts)) cur = filter (matches idx ts) ?c"
      unfolding filter_filter by (rule filter_cong) (auto simp: matches_Cons Some Set_has_def)
    show ?thesis
    proof (cases "?c = []")
      case True
      with Some f show ?thesis by (simp add: Set_new_def)
    next
      case False
      with Some f Cons.IH [OF d False] show ?thesis by (simp add: Set_new_distinct [OF d])
    qed
  qed
qed

lemma filter_mem_upt:
  "sorted_wrt (<) s \<Longrightarrow> \<forall>i\<in>set s. i < n \<Longrightarrow> filter (\<lambda>i. i \<in> set s) [0..<n] = s"
proof (rule sorted_distinct_set_unique)
  assume s: "sorted_wrt (<) s" and r: "\<forall>i\<in>set s. i < n"
  show "sorted (filter (\<lambda>i. i \<in> set s) [0..<n])" by (simp add: sorted_wrt_filter)
  show "distinct (filter (\<lambda>i. i \<in> set s) [0..<n])" by simp
  show "sorted s" using s by (simp add: strict_sorted_iff)
  show "distinct s" using s by (simp add: strict_sorted_iff)
  show "set (filter (\<lambda>i. i \<in> set s) [0..<n]) = set s" using r by auto
qed

lemma resolve_buildIndex:
  assumes "ts \<noteq> []"
  shows "resolve (buildIndex rows) ts None =
     (if filter (matches (buildIndex rows) ts) [0..<length rows] = [] then ReturnEmpty
      else LoopDone (Some (filter (matches (buildIndex rows) ts) [0..<length rows])))"
proof -
  obtain t ts' where ts: "ts = t # ts'" using assms by (cases ts) auto
  let ?idx = "buildIndex rows"
  show ?thesis
  proof (cases "?idx t")
    case None
    then show ?thesis by (simp add: ts matches_Cons)
  next
    case (Some s)
    then have s: "s = posting rows t" and ne: "s \<noteq> []"
      by (auto simp: buildIndex_lookup split: if_splits)
    have d: "distinct s" by (simp add: s posting_distinct)
    have "filter (\<lambda>i. i \<in> set s) [0..<length rows] = s"
      using posting_sorted [of rows t] posting_less [of _ rows t] by (intro filter_mem_upt) (auto simp: s)
    then have "filter (matches ?idx ts') s =
        filter (\<lambda>i. i \<in> set s \<and> matches ?idx ts' i) [0..<length rows]"
      by (simp add: conj_commute flip: filter_filter)
    also have "\<dots> = filter (matches ?idx ts) [0..<length rows]"
      by (rule filter_cong) (auto simp: ts matches_Cons Some)
    finally have f: "filter (matches ?idx ts) [0..<length rows] = filter (matches ?idx ts') s"
      by (rule sym)
    show ?thesis
      using Some ne f resolve_Some [OF d ne, of ?idx ts'] by (simp add: ts Set_new_distinct [OF d])
  qed
qed

lemma map_row_at:
  "\<forall>i\<in>set ps. i < length rows \<Longrightarrow> map (row_at rows) ps = map (\<lambda>i. Some (rows ! i)) ps"
  by (simp add: row_at_def)

lemma queryIndex_matching:
  assumes "queryTokens query \<noteq> []"
  shows "queryIndex query rows (buildIndex rows) =
     Inr (map (\<lambda>i. Some (rows ! i))
            (take 1000 (filter (matches (buildIndex rows) (queryTokens query)) [0..<length rows])))"
proof -
  let ?q = "toLowerCase (trim query)"
  let ?m = "filter (matches (buildIndex rows) (queryTokens query)) [0..<length rows]"
  from assms have q: "?q \<noteq> []" and t: "queryTokens query = split isWhiteSpace ?q"
    by (auto simp: queryTokens_def Let_def split: if_splits)
  have "\<forall>i\<in>set (take 1000 ?m). i < length rows"
    by (auto dest: in_set_takeD)
  then have "map (row_at rows) (take 1000 ?m) = map (\<lambda>i. Some (rows ! i)) (take 1000 ?m)"
    by (rule map_row_at)
  then show ?thesis
    using q resolve_buildIndex [OF assms, of rows]
    by (simp add: queryIndex_def Let_def t [symmetric])
qed

section \<open>Evaluation and further facts\<close>

lemma char_of_eq_iff2: "(c = char_of (n::nat)) = (take_bit 8 n = of_char c)"
  using char_of_eq_iff [of n c] by auto

lemmas char_eval = char_of_eq_iff char_of_eq_iff2 toLowerCase_def toLower_def isWhiteSpace_def
  notLetterOrNumber_def isLetter_def isNumber_def trim_def split_def

lemmas index_eval = buildIndex_def index_row_def index_field_def fields_def field_text_def
  index_token_def Set_add_def tokenize_def

lemmas query_eval = queryIndex_def queryTokens_def Set_new_def Set_has_def row_at_def

lemma rowTokens_set:
  "set (rowTokens row) =
     set (tokenize (field_text row ''name'')) \<union> set (tokenize (field_text row ''city'')) \<union>
     set (tokenize (field_text row ''type''))"
  by (auto simp: rowTokens_def fields_def)

lemma posting_member:
  "i \<in> set (posting rows t) \<longleftrightarrow> i < length rows \<and> t \<in> set (rowTokens (rows ! i))"
  by (auto simp: posting_def)

lemma buildIndex_posting:
  "(case buildIndex rows t of None \<Rightarrow> False | Some s \<Rightarrow> i \<in> set s) = (i \<in> set (posting rows t))"
  by (cases "posting rows t = []") (simp_all add: buildIndex_lookup)

lemma buildIndex_member:
  "(\<exists>s. buildIndex rows t = Some s \<and> i \<in> set s) \<longleftrightarrow>
     i < length rows \<and> t \<in> set (rowTokens (rows ! i))"
  using buildIndex_posting [of i rows t] by (auto simp: posting_member split: option.splits)

lemma matches_buildIndex:
  "i < length rows \<Longrightarrow>
   matches (buildIndex rows) ts i = (\<forall>t\<in>set ts. t \<in> set (rowTokens (rows ! i)))"
  by (simp add: matches_def list_all_iff buildIndex_posting posting_member)

lemma split_from_not_Nil: "split_from sep seg s \<noteq> []"
  by (induction sep seg s rule: split_from.induct) auto

lemma queryTokens_eq_Nil: "queryTokens query = [] \<longleftrightarrow> toLowerCase (trim query) = []"
  by (simp add: queryTokens_def Let_def split_def split_from_not_Nil)

lemma queryIndex_blank:
  "queryTokens query = [] \<Longrightarrow> queryIndex query rows idx = Inr (map Some rows)"
  by (simp add: queryTokens_eq_Nil queryIndex_def)

lemma queryTokens_blank: "\<forall>c\<in>set query. isWhiteSpace c \<Longrightarrow> queryTokens query = []"
  by (simp add: queryTokens_eq_Nil trim_eq_Nil toLowerCase_def)

lemma matches_iff:
  "matches idx toks i \<longleftrightarrow> (\<forall>t\<in>set toks. \<exists>s. idx t = Some s \<and> i \<in> set s)"
  by (auto simp: matches_def list_all_iff split: option.splits)

lemma set_matching:
  "set (filter (matches idx toks) [0..<n]) =
     {i. i < n \<and> (\<forall>t\<in>set toks. \<exists>s. idx t = Some s \<and> i \<in> set s)}"
  by (auto simp: matches_iff)

lemma sorted_list_matching:
  "sorted_list_of_set {i. i < n \<and> (\<forall>t\<in>set toks. \<exists>s. idx t = Some s \<and> i \<in> set s)} =
     filter (matches idx toks) [0..<n]"
proof -
  have "sorted_list_of_set (set (filter (matches idx toks) [0..<n])) = filter (matches idx toks) [0..<n]"
    by (rule sorted_distinct_set_unique) (simp_all add: sorted_wrt_filter)
  then show ?thesis by (simp only: set_matching)
qed

lemma matches_mono: "set ts \<subseteq> set us \<Longrightarrow> matches idx us i \<Longrightarrow> matches idx ts i"
  by (auto simp: matches_def list_all_iff)

lemma narrower_query_subset:
  assumes wide: "queryIndex q rows (buildIndex rows) = Inr res"
    and narrow: "queryIndex q' rows (buildIndex rows) = Inr res'"
    and toks: "set (queryTokens q) \<subseteq> set (queryTokens q')"
    and short: "length res < 1000"
  shows "set res' \<subseteq> set res"
proof (cases "queryTokens q' = []")
  case True
  with toks have "queryTokens q = []" by simp
  then have "res = map Some rows" using wide queryIndex_blank [of q rows "buildIndex rows"] by simp
  moreover have "res' = map Some rows" using True narrow queryIndex_blank [of q' rows "buildIndex rows"] by simp
  ultimately show ?thesis by simp
next
  case False
  let ?idx = "buildIndex rows"
  let ?ms' = "filter (matches ?idx (queryTokens q')) [0..<length rows]"
  let ?ms = "filter (matches ?idx (queryTokens q)) [0..<length rows]"
  have res': "res' = map (\<lambda>i. Some (rows ! i)) (take 1000 ?ms')"
    using narrow queryIndex_matching [OF False, of rows] by simp
  have sub: "set (take 1000 ?ms') \<subseteq> set ?ms'" by (rule set_take_subset)
  show ?thesis
  proof (cases "queryTokens q = []")
    case True
    then have res: "res = map Some rows"
      using wide queryIndex_blank [of q rows "buildIndex rows"] by simp
    show ?thesis
    proof
      fix x assume "x \<in> set res'"
      then obtain i where i: "i \<in> set (take 1000 ?ms')" and x: "x = Some (rows ! i)"
        unfolding res' by auto
      from i sub have "i < length rows" by auto
      then have "rows ! i \<in> set rows" by (rule nth_mem)
      then show "x \<in> set res" unfolding res x by simp
    qed
  next
    case nonblank: False
    have res: "res = map (\<lambda>i. Some (rows ! i)) (take 1000 ?ms)"
      using wide queryIndex_matching [OF nonblank, of rows] by simp
    have "length (take 1000 ?ms) < 1000" using short unfolding res by (simp only: length_map)
    then have "length ?ms < 1000" by simp
    then have "take 1000 ?ms = ?ms" by (intro take_all) arith
    with res have r: "res = map (\<lambda>i. Some (rows ! i)) ?ms" by (simp only:)
    have "set ?ms' \<subseteq> set ?ms" using matches_mono [OF toks] by auto
    with sub have "set (take 1000 ?ms') \<subseteq> set ?ms" by (rule subset_trans)
    then show ?thesis unfolding res' r set_map by (rule image_mono)
  qed
qed

lemma rowTokens_plain: "rowTokens plain = [''a'']"
  by (simp add: rowTokens_def char_eval index_eval plain_def)

lemma rowTokens_special: "rowTokens special = [''a'', ''b'']"
  by (simp add: rowTokens_def char_eval index_eval special_def)

lemma length_cap_rows: "length cap_rows = 1001"
  by (simp add: cap_rows_def)

lemma cap_rows_nth: "i < 1001 \<Longrightarrow> cap_rows ! i = (if i < 1000 then plain else special)"
  by (auto simp: cap_rows_def nth_append)

lemma cap_rows_matches:
  "i < 1001 \<Longrightarrow>
   matches (buildIndex cap_rows) ts i =
     (if i < 1000 then set ts \<subseteq> {''a''} else set ts \<subseteq> {''a'', ''b''})"
proof -
  assume i: "i < 1001"
  then have "i < length cap_rows" by (simp only: length_cap_rows)
  then have "matches (buildIndex cap_rows) ts i = (\<forall>t\<in>set ts. t \<in> set (rowTokens (cap_rows ! i)))"
    by (rule matches_buildIndex)
  also have "\<dots> = (if i < 1000 then set ts \<subseteq> {''a''} else set ts \<subseteq> {''a'', ''b''})"
    by (auto simp only: cap_rows_nth [OF i] rowTokens_plain rowTokens_special list.set split: if_splits)
  finally show ?thesis .
qed

lemma upt_cap_rows: "[0..<length cap_rows] = [0..<1000] @ [1000]"
proof -
  have "[0..<Suc 1000] = [0..<1000] @ [1000]" by (rule upt_Suc_append) simp
  then show ?thesis by (simp add: length_cap_rows)
qed

lemma special_not_plain: "special \<noteq> plain"
proof
  assume "special = plain"
  then have "special ''city'' = plain ''city''" by simp
  then show False by (simp add: special_def plain_def)
qed

lemma split_from_chars:
  "w \<in> set (split_from sep seg s) \<Longrightarrow> c \<in> set w \<Longrightarrow> c \<in> set seg \<or> (c \<in> set s \<and> \<not> sep c)"
proof (induction sep seg s rule: split_from.induct)
  case (1 sep seg)
  then show ?case by simp
next
  case (2 sep seg d cs)
  show ?case
  proof (cases "sep d")
    case True
    with 2(3) have "w = seg \<or> w \<in> set (split_from sep [] (dropWhile sep cs))" by simp
    then show ?thesis
    proof
      assume "w = seg"
      with 2(4) show ?thesis by simp
    next
      assume "w \<in> set (split_from sep [] (dropWhile sep cs))"
      from 2(1) [OF True this 2(4)] have "c \<in> set (dropWhile sep cs) \<and> \<not> sep c" by simp
      then show ?thesis by (auto dest: set_dropWhileD)
    qed
  next
    case False
    with 2(3) have "w \<in> set (split_from sep (seg @ [d]) cs)" by simp
    from 2(2) [OF False this 2(4)] False show ?thesis by auto
  qed
qed

lemma tokenize_token:
  assumes "w \<in> set (tokenize x)"
  shows "w \<noteq> []" and "\<forall>c\<in>set w. \<not> notLetterOrNumber c \<and> toLower c = c"
proof -
  from assms show "w \<noteq> []" by (simp add: tokenize_def)
  from assms have w: "w \<in> set (split_from notLetterOrNumber [] (toLowerCase x))"
    by (simp add: tokenize_def split_def)
  show "\<forall>c\<in>set w. \<not> notLetterOrNumber c \<and> toLower c = c"
  proof
    fix c assume "c \<in> set w"
    from split_from_chars [OF w this]
    have c: "c \<in> set (toLowerCase x)" and n: "\<not> notLetterOrNumber c" by simp_all
    from c obtain d where "c = toLower d" by (auto simp: toLowerCase_def)
    then have "toLower c = c" by (simp add: toLower_idem)
    with n show "\<not> notLetterOrNumber c \<and> toLower c = c" by simp
  qed
qed

lemma split_from_word:
  "\<forall>c\<in>set w. \<not> sep c \<Longrightarrow> split_from sep seg (w @ rest) = split_from sep (seg @ w) rest"
  by (induction w arbitrary: seg) simp_all

lemma words_join:
  "\<forall>w\<in>set ws. w \<noteq> [] \<and> (\<forall>c\<in>set w. \<not> sep c) \<Longrightarrow> sep d \<Longrightarrow>
   filter (\<lambda>w. w \<noteq> []) (split_from sep [] (join [d] ws)) = ws"
proof (induction "[d]" ws rule: join.induct)
  case 1
  then show ?case by simp
next
  case (2 w)
  then show ?case using split_from_word [of w sep "[]" "[]"] by simp
next
  case (3 w v ws)
  have "split_from sep [] (w @ d # join [d] (v # ws)) = split_from sep w (d # join [d] (v # ws))"
    using 3(2) split_from_word [of w sep "[]"] by simp
  also have "\<dots> = w # split_from sep [] (dropWhile sep (join [d] (v # ws)))"
    using 3(3) by simp
  finally have "filter (\<lambda>w. w \<noteq> []) (split_from sep [] (join [d] (w # v # ws))) =
      w # filter (\<lambda>w. w \<noteq> []) (split_from sep [] (dropWhile sep (join [d] (v # ws))))"
    using 3(2) by simp
  also have "\<dots> = w # filter (\<lambda>w. w \<noteq> []) (split_from sep [] (join [d] (v # ws)))"
    by (simp only: split_from_dropWhile)
  also have "\<dots> = w # v # ws" using 3 by simp
  finally show ?case .
qed

lemma set_join: "c \<in> set (join sep ws) \<Longrightarrow> c \<in> set sep \<or> (\<exists>w\<in>set ws. c \<in> set w)"
  by (induction sep ws rule: join.induct) auto

lemma resolve_Some_not_null: "resolve idx ts (Some cur) \<noteq> LoopDone None"
  by (induction ts arbitrary: cur) (simp_all add: Let_def split: option.splits)

lemma resolve_Cons_not_null: "resolve idx (t # ts) current \<noteq> LoopDone None"
  by (simp add: Let_def resolve_Some_not_null split: option.splits)

lemma queryIndex_returns: "\<exists>res. queryIndex query rows idx = Inr res"
proof (cases "toLowerCase (trim query) = []")
  case True
  then show ?thesis by (simp add: queryIndex_def)
next
  case False
  obtain t ts where ts: "split isWhiteSpace (toLowerCase (trim query)) = t # ts"
    using split_from_not_Nil [of isWhiteSpace "[]" "toLowerCase (trim query)"]
    by (cases "split isWhiteSpace (toLowerCase (trim query))") (simp_all add: split_def)
  show ?thesis
  proof (cases "resolve idx (t # ts) None")
    case ReturnEmpty
    with False ts show ?thesis by (simp add: queryIndex_def)
  next
    case (LoopDone current)
    with resolve_Cons_not_null [of idx t ts None] obtain cur where "current = Some cur"
      by (cases current) auto
    with LoopDone False ts show ?thesis by (simp add: queryIndex_def)
  qed
qed

lemma dom_buildIndex: "dom (buildIndex rows) = (\<Union>row\<in>set rows. set (rowTokens row))"
proof (rule set_eqI)
  fix t
  have "t \<in> dom (buildIndex rows) \<longleftrightarrow> posting rows t \<noteq> []"
    by (simp add: dom_def buildIndex_lookup)
  also have "\<dots> \<longleftrightarrow> (\<exists>i. i \<in> set (posting rows t))"
    by (cases "posting rows t") auto
  also have "\<dots> \<longleftrightarrow> (\<exists>i<length rows. t \<in> set (rowTokens (rows ! i)))"
    by (simp only: posting_member)
  also have "\<dots> \<longleftrightarrow> (\<exists>row\<in>set rows. t \<in> set (rowTokens row))"
    by (metis in_set_conv_nth)
  also have "\<dots> \<longleftrightarrow> t \<in> (\<Union>row\<in>set rows. set (rowTokens row))"
    by simp
  finally show "t \<in> dom (buildIndex rows) \<longleftrightarrow> t \<in> (\<Union>row\<in>set rows. set (rowTokens row))" .
qed

lemma rowTokens_empty: "rowTokens Map.empty = []"
  by (simp add: rowTokens_def fields_def field_text_def tokenize_def split_def toLowerCase_def)

lemma buildIndex_in_range: "buildIndex rows t = Some s \<Longrightarrow> i \<in> set s \<Longrightarrow> i < length rows"
  using buildIndex_member [of rows t i] by blast

lemma all_rows_at: "r \<in> set (map Some rows) \<Longrightarrow> \<exists>i<length rows. r = Some (rows ! i)"
proof -
  assume "r \<in> set (map Some rows)"
  then obtain c where c: "c \<in> set rows" and r: "r = Some c" by auto
  from c obtain i where "i < length rows" and "rows ! i = c" by (auto simp: in_set_conv_nth)
  with r show ?thesis by auto
qed

lemma some_rows_at:
  "\<forall>i\<in>set ps. i < length rows \<Longrightarrow> r \<in> set (map (\<lambda>i. Some (rows ! i)) ps) \<Longrightarrow>
   \<exists>i<length rows. r = Some (rows ! i)"
  by auto

text \<open>
  A query text that is empty or consists of white space only returns all records in their
  original order, whatever their number and whatever the index.
\<close>

lemma queryIndex_blank_all_rows:
  assumes "\<forall>c\<in>set query. isWhiteSpace c"
  shows "queryIndex query rows idx = Inr (map Some rows)"
  using assms by (intro queryIndex_blank queryTokens_blank)

section \<open>The claims\<close>

text \<open>
  C1. The claim: for every query text, the tokens used by query resolution are the tokens
  the build-time tokenizer gives for that text; a query word with a hyphen yields the same
  tokens in the query as during indexing. The code at the query \<^verbatim>\<open>Rolls-Royce\<close>: the
  loop of \<^verbatim>\<open>queryIndex\<close> runs over the single token \<^verbatim>\<open>rolls-royce\<close>, the index builder cuts
  the same text into \<^verbatim>\<open>rolls\<close> and \<^verbatim>\<open>royce\<close>, and so the record named \<^verbatim>\<open>Rolls-Royce\<close> is
  not found by its own name, while the query \<^verbatim>\<open>Rolls Royce\<close> finds it.
\<close>

theorem queryTokens_hyphen_differs:
  "queryTokens ''Rolls-Royce'' = [''rolls-royce''] \<and>
   tokenize ''Rolls-Royce'' = [''rolls'', ''royce''] \<and>
   queryIndex ''Rolls-Royce'' [hyphenated] (buildIndex [hyphenated]) = Inr [] \<and>
   queryIndex ''Rolls Royce'' [hyphenated] (buildIndex [hyphenated]) = Inr [Some hyphenated]"
  by (simp add: char_eval index_eval query_eval hyphenated_def)

text \<open>
  C2. The claim: every query text that normalizes to zero tokens under the tokenization
  rule (the empty string, white space only, punctuation only) returns all records in their
  original order, uncapped. The code at the query \<^verbatim>\<open>-\<close>, which has no token under that
  rule: the trimmed text is not empty, the loop of \<^verbatim>\<open>queryIndex\<close> runs over the single
  token \<^verbatim>\<open>-\<close>, which is no key of the index, and none of the three records is returned.
  The white-space split of the query is the one met under C1.
\<close>

theorem queryIndex_punctuation_only_empty:
  "tokenize ''-'' = [] \<and>
   queryTokens ''-'' = [''-''] \<and>
   queryIndex ''-'' example_rows (buildIndex example_rows) = Inr [] \<and>
   length example_rows = 3"
  by (simp add: char_eval index_eval query_eval example_rows_def watch_def trading_def textiles_def)

text \<open>
  C3. For every collection \<open>rows\<close>, token \<open>t\<close> and position \<open>i\<close> in range: \<open>t\<close> is a key of
  \<open>buildIndex rows\<close> with \<open>i\<close> in its position set if and only if \<open>t\<close> is among the tokens of
  the name, the city or the type of the record at position \<open>i\<close>, an absent field counting
  as the empty string.
\<close>

theorem buildIndex_token_iff:
  assumes "i < length rows"
  shows "(\<exists>s. buildIndex rows t = Some s \<and> i \<in> set s) \<longleftrightarrow>
     t \<in> set (tokenize (field_text (rows ! i) ''name'')) \<or>
     t \<in> set (tokenize (field_text (rows ! i) ''city'')) \<or>
     t \<in> set (tokenize (field_text (rows ! i) ''type''))"
  using assms by (simp add: buildIndex_member rowTokens_set)

theorem buildIndex_token_iff_witness:
  "2 < length example_rows \<and>
   ((\<exists>s. buildIndex example_rows ''basel'' = Some s \<and> 2 \<in> set s) \<longleftrightarrow>
     ''basel'' \<in> set (tokenize (field_text (example_rows ! 2) ''name'')) \<or>
     ''basel'' \<in> set (tokenize (field_text (example_rows ! 2) ''city'')) \<or>
     ''basel'' \<in> set (tokenize (field_text (example_rows ! 2) ''type'')))"
proof -
  have h: "2 < length example_rows" by (simp add: example_rows_def)
  show ?thesis using h buildIndex_token_iff [OF h, of "''basel''"] by simp
qed

text \<open>
  C4. For every collection \<open>rows\<close> with index \<open>buildIndex rows\<close> and every query with at
  least one token, the returned records are those at the positions that lie in the
  position set of every query token, up to the cap: the positions returned are distinct,
  all of them match, and there are as many as match, or 1000 if more match. If a query
  token is not a key of the index, or the intersection of the position sets of the first
  \<open>k\<close> tokens is empty, the result is empty. The query tokens are the ones the loop of
  \<^verbatim>\<open>queryIndex\<close> runs over.
\<close>

theorem queryIndex_conjunction:
  assumes "queryTokens query \<noteq> []"
  shows "(\<exists>ps. queryIndex query rows (buildIndex rows) = Inr (map (\<lambda>i. Some (rows ! i)) ps) \<and>
            distinct ps \<and>
            set ps \<subseteq> {i. i < length rows \<and>
                          (\<forall>t\<in>set (queryTokens query). \<exists>s. buildIndex rows t = Some s \<and> i \<in> set s)} \<and>
            length ps = min 1000 (card {i. i < length rows \<and>
                          (\<forall>t\<in>set (queryTokens query). \<exists>s. buildIndex rows t = Some s \<and> i \<in> set s)})) \<and>
         ((\<exists>t\<in>set (queryTokens query). buildIndex rows t = None) \<longrightarrow>
            queryIndex query rows (buildIndex rows) = Inr []) \<and>
         ((\<exists>k. 0 < k \<and> k \<le> length (queryTokens query) \<and>
               {i. \<forall>t\<in>set (take k (queryTokens query)). \<exists>s. buildIndex rows t = Some s \<and> i \<in> set s} = {}) \<longrightarrow>
            queryIndex query rows (buildIndex rows) = Inr [])"
proof -
  let ?idx = "buildIndex rows"
  let ?toks = "queryTokens query"
  let ?ms = "filter (matches ?idx ?toks) [0..<length rows]"
  let ?M = "{i. i < length rows \<and> (\<forall>t\<in>set ?toks. \<exists>s. ?idx t = Some s \<and> i \<in> set s)}"
  have res: "queryIndex query rows ?idx = Inr (map (\<lambda>i. Some (rows ! i)) (take 1000 ?ms))"
    using assms by (rule queryIndex_matching)
  have M: "set ?ms = ?M" by (rule set_matching)
  have "distinct ?ms" by simp
  then have card: "card ?M = length ?ms" using M distinct_card [of ?ms] by simp
  have 1: "distinct (take 1000 ?ms)" by simp
  have 2: "set (take 1000 ?ms) \<subseteq> ?M" using M set_take_subset [of 1000 ?ms] by simp
  have 3: "length (take 1000 ?ms) = min 1000 (card ?M)" by (simp add: card min.commute)
  have first: "\<exists>ps. queryIndex query rows ?idx = Inr (map (\<lambda>i. Some (rows ! i)) ps) \<and>
            distinct ps \<and> set ps \<subseteq> ?M \<and> length ps = min 1000 (card ?M)"
    using res 1 2 3 by blast
  have empty: "queryIndex query rows ?idx = Inr []" if "?M = {}"
  proof -
    from that M have "?ms = []" by (simp only: set_empty [symmetric])
    with res show ?thesis by simp
  qed
  have absent: "queryIndex query rows ?idx = Inr []" if "\<exists>t\<in>set ?toks. ?idx t = None"
  proof -
    from that obtain t where "t \<in> set ?toks" and "?idx t = None" by blast
    then have "?M = {}" by fastforce
    then show ?thesis by (rule empty)
  qed
  have running: "queryIndex query rows ?idx = Inr []"
    if "\<exists>k. 0 < k \<and> k \<le> length ?toks \<and>
          {i. \<forall>t\<in>set (take k ?toks). \<exists>s. ?idx t = Some s \<and> i \<in> set s} = {}"
  proof -
    from that obtain k where
      k: "{i. \<forall>t\<in>set (take k ?toks). \<exists>s. ?idx t = Some s \<and> i \<in> set s} = {}"
      by blast
    have "?M = {}"
    proof (rule ccontr)
      assume "?M \<noteq> {}"
      then obtain i where "\<forall>t\<in>set ?toks. \<exists>s. ?idx t = Some s \<and> i \<in> set s" by blast
      then have "\<forall>t\<in>set (take k ?toks). \<exists>s. ?idx t = Some s \<and> i \<in> set s"
        by (blast dest: in_set_takeD)
      with k show False by blast
    qed
    then show ?thesis by (rule empty)
  qed
  from first absent running show ?thesis by blast
qed

theorem queryIndex_conjunction_witness:
  "queryTokens ''alpine nomatch'' \<noteq> [] \<and>
   (\<exists>t\<in>set (queryTokens ''alpine nomatch''). buildIndex example_rows t = None) \<and>
   queryIndex ''alpine nomatch'' example_rows (buildIndex example_rows) = Inr []"
proof -
  have t: "queryTokens ''alpine nomatch'' = [''alpine'', ''nomatch'']"
    by (simp add: char_eval query_eval)
  then have h: "queryTokens ''alpine nomatch'' \<noteq> []" by simp
  have "buildIndex example_rows ''nomatch'' = None"
    by (simp add: char_eval index_eval example_rows_def watch_def trading_def textiles_def)
  then have a: "\<exists>t\<in>set (queryTokens ''alpine nomatch''). buildIndex example_rows t = None"
    by (simp add: t)
  have "(\<exists>t\<in>set (queryTokens ''alpine nomatch''). buildIndex example_rows t = None) \<longrightarrow>
      queryIndex ''alpine nomatch'' example_rows (buildIndex example_rows) = Inr []"
    by (rule queryIndex_conjunction [OF h, of example_rows, THEN conjunct2, THEN conjunct1])
  then have "queryIndex ''alpine nomatch'' example_rows (buildIndex example_rows) = Inr []"
    using a by (rule mp)
  with h a show ?thesis by (intro conjI)
qed

text \<open>
  C5. For every query with at least one token, on the index built from \<open>rows\<close>: the records
  are returned in strictly ascending order of position, there are at most 1000 of them,
  and their positions are the first 1000, in ascending order, of the positions that match
  every token.
\<close>

theorem queryIndex_ascending_capped:
  assumes "queryTokens query \<noteq> []"
  shows "\<exists>ps. queryIndex query rows (buildIndex rows) = Inr (map (\<lambda>i. Some (rows ! i)) ps) \<and>
           sorted_wrt (<) ps \<and> length ps \<le> 1000 \<and>
           ps = take 1000 (sorted_list_of_set {i. i < length rows \<and>
                  (\<forall>t\<in>set (queryTokens query). \<exists>s. buildIndex rows t = Some s \<and> i \<in> set s)})"
proof -
  let ?ms = "filter (matches (buildIndex rows) (queryTokens query)) [0..<length rows]"
  have "queryIndex query rows (buildIndex rows) = Inr (map (\<lambda>i. Some (rows ! i)) (take 1000 ?ms))"
    using assms by (rule queryIndex_matching)
  moreover have "sorted_wrt (<) (take 1000 ?ms)"
    by (intro sorted_wrt_take sorted_wrt_filter) simp
  moreover have "length (take 1000 ?ms) \<le> 1000" by simp
  ultimately show ?thesis by (simp add: sorted_list_matching)
qed

theorem queryIndex_ascending_capped_witness:
  "queryTokens ''Alpine'' \<noteq> [] \<and>
   (\<exists>ps. queryIndex ''Alpine'' example_rows (buildIndex example_rows) =
            Inr (map (\<lambda>i. Some (example_rows ! i)) ps) \<and>
          sorted_wrt (<) ps \<and> length ps \<le> 1000 \<and>
          ps = take 1000 (sorted_list_of_set {i. i < length example_rows \<and>
                 (\<forall>t\<in>set (queryTokens ''Alpine''). \<exists>s. buildIndex example_rows t = Some s \<and> i \<in> set s)}))"
proof -
  have h: "queryTokens ''Alpine'' \<noteq> []" by (simp add: char_eval query_eval)
  show ?thesis
    using h queryIndex_ascending_capped [OF h, of example_rows] by simp
qed

text \<open>
  C6. The claim: every record returned for \<open>t1 + " " + t2\<close> is also returned for \<open>t1\<close> and
  for \<open>t2\<close>. It fails through the cap: of 1001 records that all have the token \<open>a\<close>, the
  last one alone having \<open>b\<close>, the query \<open>a b\<close> returns the last record, and the query \<open>a\<close>
  returns the first 1000, which do not include it.
\<close>

theorem queryIndex_pair_not_subset_capped:
  "queryIndex (''a'' @ '' '' @ ''b'') cap_rows (buildIndex cap_rows) = Inr [Some special] \<and>
   queryIndex ''a'' cap_rows (buildIndex cap_rows) = Inr (replicate 1000 (Some plain)) \<and>
   Some special \<notin> set (replicate 1000 (Some plain))"
proof -
  let ?idx = "buildIndex cap_rows"
  let ?f = "\<lambda>i. Some (cap_rows ! i)"
  have ta: "queryTokens ''a'' = [''a'']" by (simp add: char_eval query_eval)
  have tab: "queryTokens ''a b'' = [''a'', ''b'']" by (simp add: char_eval query_eval)
  have "queryTokens ''a'' \<noteq> []" by (simp only: ta) simp
  then have ra: "queryIndex ''a'' cap_rows ?idx =
      Inr (map ?f (take 1000 (filter (matches ?idx (queryTokens ''a'')) [0..<length cap_rows])))"
    by (rule queryIndex_matching)
  have fa: "filter (matches ?idx [''a'']) [0..<length cap_rows] = [0..<length cap_rows]"
    by (rule filter_True) (simp add: cap_rows_matches length_cap_rows)
  have ka: "take 1000 [0..<length cap_rows] = [0..<1000]"
    by (simp add: length_cap_rows)
  have ma: "map ?f [0..<1000] = replicate 1000 (Some plain)"
    by (rule nth_equalityI) (simp_all add: cap_rows_nth)
  have a: "queryIndex ''a'' cap_rows ?idx = Inr (replicate 1000 (Some plain))"
    by (simp only: ra ta fa ka ma)
  have "queryTokens ''a b'' \<noteq> []" by (simp only: tab) simp
  then have rab: "queryIndex ''a b'' cap_rows ?idx =
      Inr (map ?f (take 1000 (filter (matches ?idx (queryTokens ''a b'')) [0..<length cap_rows])))"
    by (rule queryIndex_matching)
  have "filter (matches ?idx [''a'', ''b'']) [0..<1000] = []"
    by (rule filter_False) (simp add: cap_rows_matches)
  moreover have "matches ?idx [''a'', ''b''] 1000" by (simp add: cap_rows_matches)
  ultimately have fab: "filter (matches ?idx [''a'', ''b'']) [0..<length cap_rows] = [1000]"
    by (simp only: upt_cap_rows filter_append filter.simps if_True append_Nil)
  have "map ?f (take 1000 [1000]) = [Some special]" by (simp add: cap_rows_nth)
  then have ab': "queryIndex ''a b'' cap_rows ?idx = Inr [Some special]"
    by (simp only: rab tab fab)
  have "''a'' @ '' '' @ ''b'' = ''a b''" by simp
  with ab' have ab: "queryIndex (''a'' @ '' '' @ ''b'') cap_rows ?idx = Inr [Some special]"
    by (simp only:)
  have "Some special \<notin> set (replicate 1000 (Some plain))"
    using special_not_plain by simp
  with a ab show ?thesis by (simp only: simp_thms)
qed

text \<open>
  C6 as amended: every record returned for \<open>t1 + " " + t2\<close> is also returned for \<open>t1\<close>
  when the result for \<open>t1\<close> has fewer than 1000 records, and also returned for \<open>t2\<close> when
  the result for \<open>t2\<close> has fewer than 1000 records; \<open>t1\<close> and \<open>t2\<close> are any strings.
\<close>

theorem queryIndex_pair_subset:
  assumes "queryIndex (t1 @ '' '' @ t2) rows (buildIndex rows) = Inr both"
    and "queryIndex t1 rows (buildIndex rows) = Inr first"
    and "queryIndex t2 rows (buildIndex rows) = Inr second"
  shows "(length first < 1000 \<longrightarrow> set both \<subseteq> set first) \<and>
         (length second < 1000 \<longrightarrow> set both \<subseteq> set second)"
proof -
  have "isWhiteSpace CHR '' ''" by (simp add: isWhiteSpace_def)
  then have toks: "queryTokens (t1 @ CHR '' '' # t2) = queryTokens t1 @ queryTokens t2"
    by (rule queryTokens_append)
  have 1: "set both \<subseteq> set first" if "length first < 1000"
    using assms(2) assms(1) _ that by (rule narrower_query_subset) (simp add: toks)
  have 2: "set both \<subseteq> set second" if "length second < 1000"
    using assms(3) assms(1) _ that by (rule narrower_query_subset) (simp add: toks)
  from 1 2 show ?thesis by blast
qed

theorem queryIndex_pair_subset_witness:
  "queryIndex (''alpine'' @ '' '' @ ''zurich'') example_rows (buildIndex example_rows) = Inr [Some watch] \<and>
   queryIndex ''alpine'' example_rows (buildIndex example_rows) = Inr [Some watch, Some textiles] \<and>
   queryIndex ''zurich'' example_rows (buildIndex example_rows) = Inr [Some watch] \<and>
   length [Some watch, Some textiles] < 1000 \<and>
   set [Some watch] \<subseteq> set [Some watch, Some textiles] \<and>
   length [Some watch] < 1000 \<and>
   set [Some watch] \<subseteq> set [Some watch]"
proof -
  have a: "queryIndex (''alpine'' @ '' '' @ ''zurich'') example_rows (buildIndex example_rows) = Inr [Some watch]"
    by (simp add: char_eval index_eval query_eval example_rows_def watch_def trading_def textiles_def)
  have b: "queryIndex ''alpine'' example_rows (buildIndex example_rows) = Inr [Some watch, Some textiles]"
    by (simp add: char_eval index_eval query_eval example_rows_def watch_def trading_def textiles_def)
  have c: "queryIndex ''zurich'' example_rows (buildIndex example_rows) = Inr [Some watch]"
    by (simp add: char_eval index_eval query_eval example_rows_def watch_def trading_def textiles_def)
  show ?thesis using a b c queryIndex_pair_subset [OF a b c] by simp
qed

text \<open>
  C7. For every collection, a token that is among the tokens of no name, city or type
  field, whatever the other fields of the records hold, is not a key of the built index,
  and every query that has it among its tokens returns no record.
\<close>

theorem unindexed_token_not_searchable:
  assumes "\<forall>row\<in>set rows.
             t \<notin> set (tokenize (field_text row ''name'')) \<and>
             t \<notin> set (tokenize (field_text row ''city'')) \<and>
             t \<notin> set (tokenize (field_text row ''type''))"
  shows "buildIndex rows t = None \<and>
         (\<forall>query. t \<in> set (queryTokens query) \<longrightarrow>
            queryIndex query rows (buildIndex rows) = Inr [])"
proof -
  have no: "t \<notin> set (rowTokens (rows ! i))" if "i < length rows" for i
  proof -
    from that have "rows ! i \<in> set rows" by (rule nth_mem)
    with assms show ?thesis by (simp add: rowTokens_set)
  qed
  then have "posting rows t = []" by (simp add: posting_def)
  then have key: "buildIndex rows t = None" by (simp add: buildIndex_lookup)
  have "queryIndex query rows (buildIndex rows) = Inr []" if t: "t \<in> set (queryTokens query)" for query
  proof -
    from t have ne: "queryTokens query \<noteq> []" by auto
    have "\<not> matches (buildIndex rows) (queryTokens query) i" for i
      using t key by (fastforce simp: matches_iff)
    then have "filter (matches (buildIndex rows) (queryTokens query)) [0..<length rows] = []"
      by simp
    with queryIndex_matching [OF ne, of rows] show ?thesis by simp
  qed
  with key show ?thesis by blast
qed

theorem unindexed_token_not_searchable_witness:
  "list_all (\<lambda>row. ''secret'' \<notin> set (tokenize (field_text row ''name'')) \<and>
                   ''secret'' \<notin> set (tokenize (field_text row ''city'')) \<and>
                   ''secret'' \<notin> set (tokenize (field_text row ''type''))) example_rows \<and>
   ''secret'' \<in> set (tokenize (field_text textiles ''address'')) \<and>
   ''secret'' \<in> set (queryTokens ''Secret'') \<and>
   buildIndex example_rows ''secret'' = None \<and>
   queryIndex ''Secret'' example_rows (buildIndex example_rows) = Inr []"
proof -
  have h: "\<forall>row\<in>set example_rows.
      ''secret'' \<notin> set (tokenize (field_text row ''name'')) \<and>
      ''secret'' \<notin> set (tokenize (field_text row ''city'')) \<and>
      ''secret'' \<notin> set (tokenize (field_text row ''type''))"
    by (simp add: char_eval index_eval example_rows_def watch_def trading_def textiles_def)
  then have l: "list_all (\<lambda>row. ''secret'' \<notin> set (tokenize (field_text row ''name'')) \<and>
                   ''secret'' \<notin> set (tokenize (field_text row ''city'')) \<and>
                   ''secret'' \<notin> set (tokenize (field_text row ''type''))) example_rows"
    by (simp only: list_all_iff)
  have a: "''secret'' \<in> set (tokenize (field_text textiles ''address''))"
    by (simp add: char_eval index_eval textiles_def)
  have q: "''secret'' \<in> set (queryTokens ''Secret'')"
    by (simp add: char_eval query_eval)
  note none = unindexed_token_not_searchable [OF h]
  have k: "buildIndex example_rows ''secret'' = None"
    by (rule none [THEN conjunct1])
  have e: "queryIndex ''Secret'' example_rows (buildIndex example_rows) = Inr []"
    by (rule none [THEN conjunct2, THEN spec, THEN mp, OF q])
  from l a q k e show ?thesis by (intro conjI)
qed

text \<open>
  C8. For every string \<open>x\<close>, the tokens of the tokens of \<open>x\<close> joined by a space are the
  tokens of \<open>x\<close>.
\<close>

theorem tokenize_join_tokenize: "tokenize (join '' '' (tokenize x)) = tokenize x"
proof -
  let ?ws = "tokenize x"
  have sp: "toLower CHR '' '' = CHR '' ''" by (simp add: toLower_def)
  have "toLower c = c" if "c \<in> set (join '' '' ?ws)" for c
    using set_join [OF that] sp tokenize_token(2) by auto
  then have "map toLower (join '' '' ?ws) = join '' '' ?ws" by (simp add: map_idI)
  then have low: "toLowerCase (join '' '' ?ws) = join '' '' ?ws" by (simp only: toLowerCase_def)
  have "notLetterOrNumber CHR '' ''"
    by (simp add: notLetterOrNumber_def isLetter_def isNumber_def)
  moreover have "\<forall>w\<in>set ?ws. w \<noteq> [] \<and> (\<forall>c\<in>set w. \<not> notLetterOrNumber c)"
    using tokenize_token by blast
  ultimately have "filter (\<lambda>w. w \<noteq> []) (split_from notLetterOrNumber [] (join '' '' ?ws)) = ?ws"
    by (intro words_join)
  then show ?thesis by (simp only: tokenize_def [of "join '' '' ?ws"] split_def low)
qed

text \<open>
  C9. \<^verbatim>\<open>buildIndex\<close> and \<^verbatim>\<open>queryIndex\<close> return a result on every input: the empty
  collection gives the empty index, a record with no field adds nothing to the index, the
  index of any collection has finitely many keys, and \<^verbatim>\<open>queryIndex\<close> returns a list and
  never the \<^verbatim>\<open>TypeError\<close>, for every query text, collection and index.
\<close>

theorem build_and_query_total:
  "buildIndex [] = Map.empty \<and>
   buildIndex (rows @ [Map.empty]) = buildIndex rows \<and>
   finite (dom (buildIndex rows)) \<and>
   (\<exists>res. queryIndex query rows idx = Inr res)"
proof -
  have 1: "buildIndex [] = Map.empty" by (simp add: buildIndex_def)
  have 2: "buildIndex (rows @ [Map.empty]) = buildIndex rows"
    by (simp add: buildIndex_snoc index_row_fold rowTokens_empty)
  have 3: "finite (dom (buildIndex rows))" by (simp add: dom_buildIndex)
  from 1 2 3 queryIndex_returns show ?thesis by blast
qed

text \<open>
  C10. Every position in a position set of \<open>buildIndex rows\<close> is below the length of
  \<open>rows\<close>, and every entry that \<^verbatim>\<open>queryIndex\<close> returns on that index is the record at
  a position of \<open>rows\<close>, never \<^verbatim>\<open>undefined\<close>.
\<close>

theorem positions_in_range:
  "(\<forall>t s. buildIndex rows t = Some s \<longrightarrow> (\<forall>i\<in>set s. i < length rows)) \<and>
   (\<exists>res. queryIndex query rows (buildIndex rows) = Inr res \<and>
          (\<forall>r\<in>set res. \<exists>i<length rows. r = Some (rows ! i)))"
proof (rule conjI)
  show "\<forall>t s. buildIndex rows t = Some s \<longrightarrow> (\<forall>i\<in>set s. i < length rows)"
    using buildIndex_in_range [of rows] by blast
next
  show "\<exists>res. queryIndex query rows (buildIndex rows) = Inr res \<and>
          (\<forall>r\<in>set res. \<exists>i<length rows. r = Some (rows ! i))"
  proof (cases "queryTokens query = []")
    case True
    have "\<forall>r\<in>set (map Some rows). \<exists>i<length rows. r = Some (rows ! i)"
      using all_rows_at [of _ rows] by blast
    with queryIndex_blank [OF True, of rows "buildIndex rows"] show ?thesis by blast
  next
    case False
    let ?ps = "take 1000 (filter (matches (buildIndex rows) (queryTokens query)) [0..<length rows])"
    have "\<forall>i\<in>set ?ps. i < length rows" by (auto dest: in_set_takeD)
    then have "\<forall>r\<in>set (map (\<lambda>i. Some (rows ! i)) ?ps). \<exists>i<length rows. r = Some (rows ! i)"
      using some_rows_at [of ?ps rows] by blast
    with queryIndex_matching [OF False, of rows] show ?thesis by blast
  qed
qed

theorem positions_in_range_witness:
  "buildIndex example_rows ''alpine'' = Some [0, 2] \<and>
   list_all (\<lambda>i. i < length example_rows) [0, 2] \<and>
   (\<exists>res. queryIndex ''alpine'' example_rows (buildIndex example_rows) = Inr res \<and>
          (\<forall>r\<in>set res. \<exists>i<length example_rows. r = Some (example_rows ! i)))"
proof -
  have h: "buildIndex example_rows ''alpine'' = Some [0, 2]"
    by (simp add: char_eval index_eval example_rows_def watch_def trading_def textiles_def)
  note range = positions_in_range [of example_rows "''alpine''"]
  from range have a: "\<forall>t s. buildIndex example_rows t = Some s \<longrightarrow> (\<forall>i\<in>set s. i < length example_rows)"
    by (rule conjunct1)
  have "\<forall>i\<in>set [0, 2]. i < length example_rows"
    by (rule a [THEN spec, THEN spec, THEN mp, OF h])
  then have b: "list_all (\<lambda>i. i < length example_rows) [0, 2]"
    by (simp only: list_all_iff)
  from range have c: "\<exists>res. queryIndex ''alpine'' example_rows (buildIndex example_rows) = Inr res \<and>
          (\<forall>r\<in>set res. \<exists>i<length example_rows. r = Some (example_rows ! i))"
    by (rule conjunct2)
  from h b c show ?thesis by (intro conjI)
qed

end
